theory Spec2Isabelle
  imports Main "HOL-Library.Multiset" "HOL-Library.Char_ord" "HOL-Library.List_Lexorder"
    "HOL-Library.Sublist"
begin

section \<open>Model classes and the application registry\<close>

text \<open>
  A model class is identified by the attributes the commands read from it:
  \<open>_meta.app_label\<close>, \<open>_meta.object_name\<close> and \<open>__name__\<close>.  Equality of
  two values of this type stands for identity of the two classes.
\<close>

record model =
  app_label :: string
  object_name :: string
  cls_name :: string

text \<open>
  An application configuration: its label, whether \<open>models_module\<close> is not \<open>None\<close>,
  and the result of \<open>get_models()\<close>.
\<close>

record app_config =
  label :: string
  has_models_module :: bool
  get_models :: "model list"

datatype error =
    LookupError string
  | CommandError string
  | ValueError string
  | AttributeError string
  | UnboundLocalError string
  | IOError string
  | OtherError string

text \<open>
  An element of a dependency list: a label, as declared in
  \<open>natural_key.dependencies\<close>, or a model class.
\<close>

datatype dep_item = Label string | Class model

text \<open>
  What \<open>sort_dependencies\<close> reads from the registry and from the classes:
  \<open>apps.get_model\<close>, which returns a class or raises (\<open>LookupError\<close> for an
  unknown application or model; the registry of Django raises \<open>ValueError\<close> for a
  label that is not of the form \<open>app.Model\<close>), whether a class has the attribute
  \<open>natural_key\<close>, the list object bound to \<open>natural_key.dependencies\<close> (\<open>None\<close>
  when the attribute is absent; list objects are told apart by a number, and classes
  that inherit one \<open>natural_key\<close> have the same list object), for every field of
  \<open>_meta.fields\<close> the class \<open>field.rel.to\<close> (\<open>None\<close> when \<open>field.rel\<close> has no
  attribute \<open>to\<close>), and the targets of \<open>_meta.many_to_many\<close>.
\<close>

record registry =
  get_model :: "dep_item \<Rightarrow> error + model"
  has_natural_key :: "model \<Rightarrow> bool"
  dependencies_attr :: "model \<Rightarrow> nat option"
  meta_fields :: "model \<Rightarrow> model option list"
  meta_many_to_many :: "model \<Rightarrow> model list"

text \<open>
  The contents of the list objects bound to \<open>natural_key.dependencies\<close>.  The code
  appends to such a list when it finds it empty, so the contents are part of the state.
\<close>

type_synonym dep_heap = "nat \<Rightarrow> dep_item list"

text \<open>
  The list \<open>deps\<close> of a model is either a list of its own (made by the list
  comprehension, or the default \<open>[]\<close>), or the very list object of the attribute.
\<close>

datatype deps_ref = Own "dep_item list" | Attr nat

section \<open>gitversions: sort_dependencies\<close>

subsection \<open>Building the dependency list\<close>

text \<open>\<open>[apps.get_model(dep) for dep in deps]\<close>: the first lookup that raises ends it.\<close>

fun resolve_deps :: "registry \<Rightarrow> dep_item list \<Rightarrow> error + model list" where
  "resolve_deps reg [] = Inr []"
| "resolve_deps reg (dep # deps) =
     (case get_model reg dep of
        Inl e \<Rightarrow> Inl e
      | Inr m \<Rightarrow>
          (case resolve_deps reg deps of
             Inl e \<Rightarrow> Inl e
           | Inr ms \<Rightarrow> Inr (m # ms)))"

text \<open>
  The explicitly defined dependencies: \<open>getattr(model.natural_key, 'dependencies',
  [])\<close> is the list object of the attribute; a non-empty one is replaced by the list
  of the classes looked up, an empty one is kept as it is.
\<close>

definition explicit_deps :: "registry \<Rightarrow> dep_heap \<Rightarrow> model \<Rightarrow> error + deps_ref" where
  "explicit_deps reg h m =
     (if has_natural_key reg m then
        (case dependencies_attr reg m of
           None \<Rightarrow> Inr (Own [])
         | Some a \<Rightarrow>
             if h a \<noteq> [] then
               (case resolve_deps reg (h a) of
                  Inl e \<Rightarrow> Inl e
                | Inr ms \<Rightarrow> Inr (Own (map Class ms)))
             else Inr (Attr a))
      else Inr (Own []))"

text \<open>\<open>deps.append(rel_model)\<close>: on the attribute's list object it changes the state.\<close>

fun append_dep :: "deps_ref \<Rightarrow> model \<Rightarrow> dep_heap \<Rightarrow> deps_ref \<times> dep_heap" where
  "append_dep (Own deps) rel_model h = (Own (deps @ [Class rel_model]), h)"
| "append_dep (Attr a) rel_model h = (Attr a, h(a := h a @ [Class rel_model]))"

fun add_field_deps :: "registry \<Rightarrow> model \<Rightarrow> model option list \<Rightarrow> deps_ref \<times> dep_heap \<Rightarrow> deps_ref \<times> dep_heap" where
  "add_field_deps reg m [] acc = acc"
| "add_field_deps reg m (None # fs) acc = add_field_deps reg m fs acc"
| "add_field_deps reg m (Some rel_model # fs) (deps, h) =
     (if has_natural_key reg rel_model \<and> rel_model \<noteq> m
      then add_field_deps reg m fs (append_dep deps rel_model h)
      else add_field_deps reg m fs (deps, h))"

fun add_m2m_deps :: "registry \<Rightarrow> model \<Rightarrow> model list \<Rightarrow> deps_ref \<times> dep_heap \<Rightarrow> deps_ref \<times> dep_heap" where
  "add_m2m_deps reg m [] acc = acc"
| "add_m2m_deps reg m (rel_model # fs) (deps, h) =
     (if has_natural_key reg rel_model \<and> rel_model \<noteq> m
      then add_m2m_deps reg m fs (append_dep deps rel_model h)
      else add_m2m_deps reg m fs (deps, h))"

text \<open>The dependency list of one model, as the body of the loop over \<open>model_list\<close> builds it.\<close>

definition model_deps :: "registry \<Rightarrow> model \<Rightarrow> dep_heap \<Rightarrow> error + deps_ref \<times> dep_heap" where
  "model_deps reg m h =
     (case explicit_deps reg h m of
        Inl e \<Rightarrow> Inl e
      | Inr deps \<Rightarrow>
          Inr (add_m2m_deps reg m (meta_many_to_many reg m)
                 (add_field_deps reg m (meta_fields reg m) (deps, h))))"

type_synonym ref_list = "(model \<times> deps_ref) list"

fun collect_models :: "registry \<Rightarrow> model list \<Rightarrow> model set \<times> ref_list \<times> dep_heap
    \<Rightarrow> error + (model set \<times> ref_list \<times> dep_heap)" where
  "collect_models reg [] acc = Inr acc"
| "collect_models reg (m # ms) (models, model_dependencies, h) =
     (case model_deps reg m h of
        Inl e \<Rightarrow> Inl e
      | Inr (deps, h') \<Rightarrow>
          collect_models reg ms (insert m models, model_dependencies @ [(m, deps)], h'))"

fun collect_apps :: "registry \<Rightarrow> (app_config \<times> model list option) list \<Rightarrow> model set \<times> ref_list \<times> dep_heap
    \<Rightarrow> error + (model set \<times> ref_list \<times> dep_heap)" where
  "collect_apps reg [] acc = Inr acc"
| "collect_apps reg ((ac, model_list) # rest) acc =
     (case collect_models reg (case model_list of None \<Rightarrow> get_models ac | Some ms \<Rightarrow> ms) acc of
        Inl e \<Rightarrow> Inl e
      | Inr acc' \<Rightarrow> collect_apps reg rest acc')"


type_synonym dep_list = "(model \<times> dep_item list) list"


subsection \<open>The promotion loop\<close>

text \<open>
  \<open>d not in models or d in model_list\<close>: a label is never an element of a set or list
  of classes.
\<close>

definition candidate :: "model set \<Rightarrow> model list \<Rightarrow> dep_item \<Rightarrow> bool" where
  "candidate models model_list d =
     (case d of Label l \<Rightarrow> True | Class c \<Rightarrow> c \<notin> models \<or> c \<in> set model_list)"

text \<open>
  One pass of the inner \<open>while\<close> loop: \<open>model_dependencies.pop()\<close> takes the last
  element of the list.
\<close>

function scan_pass :: "model set \<Rightarrow> dep_list \<Rightarrow> model list \<Rightarrow> dep_list \<Rightarrow> bool \<Rightarrow> model list \<times> dep_list \<times> bool" where
  "scan_pass models model_dependencies model_list skipped changed =
     (if model_dependencies = [] then (model_list, skipped, changed)
      else
        (let (m, deps) = last model_dependencies;
             rest = butlast model_dependencies;
             found = list_all (candidate models model_list) deps
         in if found then scan_pass models rest (model_list @ [m]) skipped True
            else scan_pass models rest model_list (skipped @ [(m, deps)]) changed))"
  by pat_completeness auto
termination
  by (relation "measure (\<lambda>(models, md, ml, sk, ch). length md)") auto

declare scan_pass.simps [simp del]





lemma scan_pass_Nil [simp]:
  "scan_pass models [] ml sk ch = (ml, sk, ch)"
  by (simp add: scan_pass.simps)

lemma scan_pass_snoc [simp]:
  "scan_pass models (md @ [(m, deps)]) ml sk ch =
     (if list_all (candidate models ml) deps
      then scan_pass models md (ml @ [m]) sk True
      else scan_pass models md ml (sk @ [(m, deps)]) ch)"
  by (simp add: scan_pass.simps [of models "md @ [(m, deps)]"])


lemma scan_pass_extends:
  "scan_pass models md ml sk ch = (ml', sk', ch') \<Longrightarrow>
     (\<exists>xs. ml' = ml @ xs) \<and> (\<exists>ys. sk' = sk @ ys)"
proof (induction md arbitrary: ml sk ch rule: rev_induct)
  case Nil
  then show ?case by simp
next
  case (snoc x md)
  obtain m deps where x: "x = (m, deps)" by (cases x)
  from snoc.prems show ?case
    unfolding x by (auto split: if_splits dest!: snoc.IH)
qed






subsection \<open>Notions used to state the properties of the ordering\<close>

text \<open>The models handed to \<open>sort_dependencies\<close>, in the order of the loops.\<close>

definition input_models :: "(app_config \<times> model list option) list \<Rightarrow> model list" where
  "input_models app_list =
     concat (map (\<lambda>(ac, model_list). case model_list of None \<Rightarrow> get_models ac | Some ms \<Rightarrow> ms) app_list)"


text \<open>
  An entry can be promoted when each class it lists that is one of the models \<open>M\<close> is
  already in the output list.  A list of entries is ordered when each entry can be
  promoted after the ones before it.
\<close>

definition promotable :: "model set \<Rightarrow> model list \<Rightarrow> model \<times> dep_item list \<Rightarrow> bool" where
  "promotable M ml p =
     list_all (\<lambda>d. case d of Label l \<Rightarrow> True | Class c \<Rightarrow> c \<in> M \<longrightarrow> c \<in> set ml) (snd p)"





text \<open>
  The targets of the foreign-key fields and of the many-to-many fields of a model, in
  order, and those of them that have a natural key and are not the model itself.
\<close>

definition relation_targets :: "registry \<Rightarrow> model \<Rightarrow> model list" where
  "relation_targets reg m =
     List.map_filter (\<lambda>f. f) (meta_fields reg m) @ meta_many_to_many reg m"

definition natural_key_targets :: "registry \<Rightarrow> model \<Rightarrow> model list" where
  "natural_key_targets reg m =
     filter (\<lambda>t. has_natural_key reg t \<and> t \<noteq> m) (relation_targets reg m)"

text \<open>
  The declared dependencies of a model, as the code reads them when it comes to the
  model; and whether the code keeps the list object of the attribute as the list of
  the model (it does when the model has a natural key whose list of dependencies is
  empty).
\<close>

definition declared_items :: "registry \<Rightarrow> dep_heap \<Rightarrow> model \<Rightarrow> dep_item list" where
  "declared_items reg h m =
     (if has_natural_key reg m
      then (case dependencies_attr reg m of None \<Rightarrow> [] | Some a \<Rightarrow> h a)
      else [])"

definition keeps_attribute_list :: "registry \<Rightarrow> dep_heap \<Rightarrow> model \<Rightarrow> bool" where
  "keeps_attribute_list reg h m =
     (has_natural_key reg m \<and>
      (case dependencies_attr reg m of None \<Rightarrow> False | Some a \<Rightarrow> h a = []))"

section \<open>gitrestore: save_all\<close>

text \<open>
  A deserialized object: the class of \<open>obj.object\<close> (whose \<open>_meta\<close> gives the app
  label and the object name) and the text of \<open>obj.object.pk\<close>.
\<close>

record deserialized =
  object_class :: model
  object_pk :: string

text \<open>
  The outcome of \<open>obj.save(using=using)\<close> on a store in state \<open>'db\<close>: it returns,
  or raises \<open>DatabaseError\<close> (\<open>IntegrityError\<close> is a subclass of it) with the text
  \<open>force_text(e)\<close>, or raises another exception.  Each outcome carries the state the
  store is left in.
\<close>

datatype 'db save_outcome =
    Saved 'db
  | DatabaseError string 'db
  | OtherException string 'db

record 'db store =
  allow_migrate_model :: "string \<Rightarrow> model \<Rightarrow> bool"
  obj_save :: "deserialized \<Rightarrow> string \<Rightarrow> 'db \<Rightarrow> 'db save_outcome"

definition could_not_load :: "deserialized \<Rightarrow> string \<Rightarrow> string" where
  "could_not_load obj error_msg =
     ''Could not load '' @ app_label (object_class obj) @ ''.'' @ object_name (object_class obj) @
     ''(pk='' @ object_pk obj @ ''): '' @ error_msg"

text \<open>
  The \<open>for\<close> loop of \<open>save_all\<close>.  Besides \<open>skiped\<close> it returns the texts assigned
  to \<open>e.args\<close>, in order.
\<close>

fun save_objects :: "'db store \<Rightarrow> string \<Rightarrow> deserialized list \<Rightarrow> deserialized list \<Rightarrow> string list \<Rightarrow> 'db
    \<Rightarrow> (error + deserialized list \<times> string list) \<times> 'db" where
  "save_objects st using [] skiped errors db = (Inr (skiped, errors), db)"
| "save_objects st using (obj # objects) skiped errors db =
     (if allow_migrate_model st using (object_class obj) then
        (case obj_save st obj using db of
           Saved db' \<Rightarrow> save_objects st using objects skiped errors db'
         | DatabaseError e db' \<Rightarrow>
             save_objects st using objects (skiped @ [obj]) (errors @ [could_not_load obj e]) db'
         | OtherException e db' \<Rightarrow> (Inl (OtherError e), db'))
      else save_objects st using objects skiped errors db)"

function save_all :: "'db store \<Rightarrow> deserialized list \<Rightarrow> string \<Rightarrow> int \<Rightarrow> 'db \<Rightarrow> (error + int) \<times> 'db" where
  "save_all st objects using iterations db =
     (if length objects = 0 \<or> iterations \<ge> 25 then (Inr iterations, db)
      else
        (case save_objects st using objects [] [] db of
           (Inl e, db') \<Rightarrow> (Inl e, db')
         | (Inr (skiped, errors), db') \<Rightarrow>
             if length skiped > 0 then save_all st skiped using (iterations + 1) db'
             else (Inr iterations, db')))"
  by pat_completeness auto
termination
  by (relation "measure (\<lambda>(st, objects, using, iterations, db). nat (25 - iterations))") auto

declare save_all.simps [simp del]

definition never_raises :: "'db store \<Rightarrow> string \<Rightarrow> bool" where
  "never_raises st using = (\<forall>obj db e db'. obj_save st obj using db \<noteq> OtherException e db')"


text \<open>Whether the routing policy accepts the class of a record.\<close>

definition routable :: "'db store \<Rightarrow> string \<Rightarrow> deserialized \<Rightarrow> bool" where
  "routable st using obj = allow_migrate_model st using (object_class obj)"


section \<open>gitrestore: the restore command\<close>

text \<open>
  What happens to one fixture file in \<open>loaddata\<close>: \<open>open(path)\<close> raises (outside
  the \<open>try\<close>, so the exception leaves the command), or the file is read and
  deserialized into a list of objects, or deserialization raises
  \<open>DeserializationError\<close> (with the text \<open>str(ex)\<close> and the value the name
  \<open>objects\<close> holds when the handler runs), or it raises another exception.  The
  outcome may depend on the database, which natural keys are looked up in.
\<close>

datatype decode_outcome =
    Decoded "deserialized list"
  | DeserializationError string "deserialized list"
  | OtherDecodeException string
  | OpenError string

text \<open>
  A pass of the first loop may be ended by \<open>TransactionManagementError\<close>: raised
  before \<open>loaddata\<close> has touched the list (on entering the \<open>with\<close> block of
  \<open>handle\<close> or the one of \<open>loaddata\<close>), raised in \<open>loaddata\<close> after its loop
  (on leaving its \<open>with\<close> block: the list has been shortened in place, nothing is
  returned and the assignments of \<open>handle\<close> do not happen), or raised on leaving the
  block of \<open>handle\<close> (the assignments have happened).  Inside the loop of
  \<open>loaddata\<close> the error is an exception like any other of the deserializer.  Which
  passes are ended so is given by the environment.
\<close>

datatype tx_outcome = NoTxError | TxErrorOnEnter | TxErrorInLoaddata | TxErrorOnExit

text \<open>
  The environment of the command: the result of \<open>get_all_fixtures()\<close>, the
  deserializer, the transaction errors of the passes (by the value of \<open>i\<close>), and
  the store.
\<close>

record 'db restore_env =
  fixtures :: "string list"
  decode :: "string \<Rightarrow> 'db \<Rightarrow> decode_outcome"
  tx_event :: "nat \<Rightarrow> tx_outcome"
  db_store :: "'db store"

text \<open>
  The \<open>for\<close> loop of \<open>loaddata\<close> iterates over \<open>fixture_labels\<close> while every
  branch of its body removes the current path from that list: the iterator reads the
  element at its index \<open>k\<close> and advances, \<open>list.remove\<close> deletes the first element
  equal to the path.  The accumulator holds \<open>skiped\<close>, \<open>processed\<close>,
  \<open>loaded_objects\<close> and \<open>missing_fks\<close>; the messages written to the error stream
  and the list \<open>missing_model\<close>, which is not returned, are left out.
\<close>

type_synonym loaddata_acc = "string list \<times> string list \<times> deserialized list \<times> deserialized list"

function loaddata_loop :: "'db restore_env \<Rightarrow> 'db \<Rightarrow> string list \<Rightarrow> nat \<Rightarrow> loaddata_acc
    \<Rightarrow> error + (string list \<times> loaddata_acc)" where
  "loaddata_loop env db fixture_labels k (skiped, processed, loaded_objects, missing_fks) =
     (if k < length fixture_labels then
        (let path = fixture_labels ! k in
         case decode env path db of
           OpenError e \<Rightarrow> Inl (IOError e)
         | DeserializationError ex objects \<Rightarrow>
             loaddata_loop env db (remove1 path fixture_labels) (k + 1)
               (skiped @ [path], processed, loaded_objects,
                if sublist ''Invalid model identifier'' ex then missing_fks
                else if sublist ''matching query does not exist'' ex then missing_fks @ objects
                else missing_fks)
         | OtherDecodeException e \<Rightarrow>
             loaddata_loop env db (remove1 path fixture_labels) (k + 1)
               (skiped, processed, loaded_objects, missing_fks)
         | Decoded objects \<Rightarrow>
             loaddata_loop env db (remove1 path fixture_labels) (k + 1)
               (skiped, processed @ [path], loaded_objects @ objects, missing_fks))
      else Inr (fixture_labels, skiped, processed, loaded_objects, missing_fks))"
  by pat_completeness auto
termination
  by (relation "measure (\<lambda>(env, db, fixture_labels, k, acc). length fixture_labels - k)")
     (auto simp: length_remove1)

declare loaddata_loop.simps [simp del]

definition loaddata :: "'db restore_env \<Rightarrow> 'db \<Rightarrow> string list
    \<Rightarrow> error + (string list \<times> string list \<times> string list \<times> deserialized list \<times> deserialized list)" where
  "loaddata env db fixture_labels =
     (case loaddata_loop env db fixture_labels 0 ([], [], [], []) of
        Inl e \<Rightarrow> Inl e
      | Inr (fixture_labels', skiped, processed, loaded_objects, missing_fks) \<Rightarrow>
          Inr (fixture_labels', processed, skiped, loaded_objects, missing_fks))"

text \<open>
  The local variables of \<open>handle\<close> that the loops change.  \<open>_processed\<close> and
  \<open>missing_fks\<close> are unbound (\<open>None\<close>) until a pass assigns them.  The list
  \<open>unloaded\<close> is the one \<open>loaddata\<close> changes in place and returns.
\<close>

record ingest_state =
  s_unloaded :: "string list"
  s_prev_processed :: "string list option"
  s_processed :: "string list"
  s_skiped :: "string list"
  s_really_skiped :: "string list"
  s_objects :: "deserialized list"
  s_missing_fks :: "deserialized list option"
  s_i :: nat

text \<open>
  The body of the first \<open>while\<close> loop.  After \<open>TransactionManagementError\<close> the
  handler extends \<open>unloaded\<close> (as \<open>loaddata\<close> has left it) by \<open>_processed\<close>,
  which raises when that name is unbound and is the list of an earlier pass when the
  assignments of this pass have not happened.
\<close>

definition requeue :: "ingest_state \<Rightarrow> string list \<Rightarrow> error + ingest_state" where
  "requeue s unloaded =
     (case s_prev_processed s of
        None \<Rightarrow> Inl (UnboundLocalError ''_processed'')
      | Some p \<Rightarrow> Inr (s\<lparr>s_unloaded := unloaded @ p, s_i := s_i s + 1\<rparr>))"

definition ingest_pass :: "'db restore_env \<Rightarrow> 'db \<Rightarrow> ingest_state \<Rightarrow> error + ingest_state" where
  "ingest_pass env db s =
     (case tx_event env (s_i s) of
        TxErrorOnEnter \<Rightarrow> requeue s (s_unloaded s)
      | TxErrorInLoaddata \<Rightarrow>
          (case loaddata env db (s_unloaded s) of
             Inl e \<Rightarrow> Inl e
           | Inr (unloaded, p, sk, objs, fks) \<Rightarrow> requeue s unloaded)
      | ev \<Rightarrow>
          (case loaddata env db (s_unloaded s) of
             Inl e \<Rightarrow> Inl e
           | Inr (unloaded, p, sk, objs, fks) \<Rightarrow>
               Inr (s\<lparr>s_unloaded := (if ev = TxErrorOnExit then unloaded @ p else unloaded),
                      s_prev_processed := Some p,
                      s_processed := s_processed s @ p,
                      s_skiped := s_skiped s @ sk,
                      s_objects := s_objects s @ objs,
                      s_missing_fks := Some fks,
                      s_i := s_i s + 1\<rparr>)))"

text \<open>The first loop may run forever; then the value is \<open>None\<close>.\<close>

partial_function (option) ingest_loop :: "'db restore_env \<Rightarrow> 'db \<Rightarrow> ingest_state \<Rightarrow> (error + ingest_state) option" where
  "ingest_loop env db s =
     (if length (s_unloaded s) > 0 then
        (case ingest_pass env db s of
           Inl e \<Rightarrow> Some (Inl e)
         | Inr s' \<Rightarrow> ingest_loop env db s')
      else Some (Inr s))"

declare ingest_loop.simps [code]

lemma loaddata_loop_length:
  "loaddata_loop env db labels k acc = Inr (labels', acc') \<Longrightarrow>
   length labels' = (if k \<le> length labels then k + (length labels - k) div 2 else length labels)"
proof (induction env db labels k acc rule: loaddata_loop.induct)
  case (1 env db fixture_labels k skiped processed loaded_objects missing_fks)
  show ?case
  proof (cases "k < length fixture_labels")
    case False
    with "1.prems" show ?thesis by (auto simp: loaddata_loop.simps [of env db fixture_labels])
  next
    case True
    let ?path = "fixture_labels ! k"
    let ?rest = "remove1 ?path fixture_labels"
    have len: "length ?rest = length fixture_labels - 1"
      using True by (simp add: length_remove1)
    have goal: "length labels' = (if k + 1 \<le> length ?rest then k + 1 + (length ?rest - (k + 1)) div 2 else length ?rest)
       \<Longrightarrow> ?thesis"
      using True len by (auto split: if_splits)
    show ?thesis
    proof (cases "decode env ?path db")
      case (Decoded objects)
      with True "1.prems" show ?thesis
        by (intro goal "1.IH"(1) [OF True refl Decoded])
           (simp add: loaddata_loop.simps [of env db fixture_labels] Let_def)
    next
      case (DeserializationError ex objects)
      with True "1.prems" show ?thesis
        by (intro goal "1.IH"(2) [OF True refl DeserializationError])
           (simp add: loaddata_loop.simps [of env db fixture_labels] Let_def)
    next
      case (OtherDecodeException e)
      with True "1.prems" show ?thesis
        by (intro goal "1.IH"(3) [OF True refl OtherDecodeException])
           (simp add: loaddata_loop.simps [of env db fixture_labels] Let_def)
    next
      case (OpenError e)
      with True "1.prems" show ?thesis
        by (simp add: loaddata_loop.simps [of env db fixture_labels] Let_def)
    qed
  qed
qed

lemma loaddata_length:
  "loaddata env db labels = Inr (labels', p, sk, objs, fks) \<Longrightarrow> length labels' = length labels div 2"
  by (auto simp: loaddata_def split: sum.splits dest!: loaddata_loop_length)

text \<open>The second loop, over \<open>skiped\<close>, has no exception handler.\<close>

definition retry_pass :: "'db restore_env \<Rightarrow> 'db \<Rightarrow> ingest_state \<Rightarrow> error + ingest_state" where
  "retry_pass env db s =
     (case loaddata env db (s_skiped s) of
        Inl e \<Rightarrow> Inl e
      | Inr (skiped, p, rsk, objs, fks) \<Rightarrow>
          Inr (s\<lparr>s_skiped := skiped,
                 s_prev_processed := Some p,
                 s_processed := s_processed s @ p,
                 s_really_skiped := s_really_skiped s @ rsk,
                 s_objects := s_objects s @ objs,
                 s_missing_fks := Some fks,
                 s_i := s_i s + 1\<rparr>))"

lemma retry_pass_length:
  "retry_pass env db s = Inr s' \<Longrightarrow> length (s_skiped s') = length (s_skiped s) div 2"
  by (auto simp: retry_pass_def split: sum.splits dest: loaddata_length)

function retry_loop :: "'db restore_env \<Rightarrow> 'db \<Rightarrow> ingest_state \<Rightarrow> error + ingest_state" where
  "retry_loop env db s =
     (if length (s_skiped s) > 0 then
        (case retry_pass env db s of
           Inl e \<Rightarrow> Inl e
         | Inr s' \<Rightarrow> retry_loop env db s')
      else Inr s)"
  by pat_completeness auto
termination
  by (relation "measure (\<lambda>(env, db, s). length (s_skiped s))")
     (auto dest!: retry_pass_length)

declare retry_loop.simps [simp del]

text \<open>
  The state the command acts on: the database, whether the receiver \<open>gitversion\<close>
  is connected to the \<open>post_save\<close> signal, and the records for which the receiver
  has run.
\<close>

record 'db world =
  database :: 'db
  gitversion_connected :: bool
  versioned :: "deserialized list"

text \<open>
  A successful save sends \<open>post_save\<close>; the receiver \<open>gitversion\<close> (of
  \<open>django_gitversions.signals\<close>, which is not among the source files) runs when it is
  connected.  The model records the call.
\<close>

definition post_save_send :: "deserialized \<Rightarrow> 'db world \<Rightarrow> 'db world" where
  "post_save_send obj w =
     (if gitversion_connected w then w\<lparr>versioned := versioned w @ [obj]\<rparr> else w)"

definition signalling_store :: "'db store \<Rightarrow> 'db world store" where
  "signalling_store st =
     \<lparr>allow_migrate_model = allow_migrate_model st,
      obj_save = (\<lambda>obj using w.
        case obj_save st obj using (database w) of
          Saved db' \<Rightarrow> Saved (post_save_send obj (w\<lparr>database := db'\<rparr>))
        | DatabaseError e db' \<Rightarrow> DatabaseError e (w\<lparr>database := db'\<rparr>)
        | OtherException e db' \<Rightarrow> OtherException e (w\<lparr>database := db'\<rparr>))\<rparr>"

text \<open>The numbers of the line the command writes at its end.\<close>

record report =
  rep_loaded :: nat
  rep_skipped :: nat
  rep_total :: nat
  rep_loaddata_iterations :: nat
  rep_saving_iterations :: int

definition initial_state :: "string list \<Rightarrow> ingest_state" where
  "initial_state all_fixtures =
     \<lparr>s_unloaded = all_fixtures, s_prev_processed = None, s_processed = [], s_skiped = [],
      s_really_skiped = [], s_objects = [], s_missing_fks = None, s_i = 0\<rparr>"

text \<open>
  \<open>Command.handle\<close> of gitrestore, from \<open>get_all_fixtures()\<close> on (the clone of a
  remote repository before it only determines which fixtures are found).  The result is
  \<open>None\<close> when the first loop does not end; otherwise the exception that leaves the
  command or the report, and the final state.
\<close>

definition gitrestore_handle :: "'db restore_env \<Rightarrow> string \<Rightarrow> 'db world \<Rightarrow> ((error + report) \<times> 'db world) option" where
  "gitrestore_handle env using w0 =
     (let all_fixtures = fixtures env;
          count_total = length all_fixtures;
          w1 = w0\<lparr>gitversion_connected := False\<rparr>;
          st = signalling_store (db_store env)
      in case ingest_loop env (database w1) (initial_state all_fixtures) of
           None \<Rightarrow> None
         | Some (Inl e) \<Rightarrow> Some (Inl e, w1)
         | Some (Inr s1) \<Rightarrow> Some
            (case s_missing_fks s1 of
               None \<Rightarrow> (Inl (UnboundLocalError ''missing_fks''), w1)
             | Some missing_fks \<Rightarrow>
                (case save_all st missing_fks using 0 w1 of
                   (Inl e, w2) \<Rightarrow> (Inl e, w2)
                 | (Inr iterations0, w2) \<Rightarrow>
                    (case save_all st (s_objects s1) using 0 w2 of
                       (Inl e, w3) \<Rightarrow> (Inl e, w3)
                     | (Inr iterations, w3) \<Rightarrow>
                        (case retry_loop env (database w3) s1 of
                           Inl e \<Rightarrow> (Inl e, w3)
                         | Inr s2 \<Rightarrow>
                            (case save_all st (s_objects s2) using iterations w3 of
                               (Inl e, w4) \<Rightarrow> (Inl e, w4)
                             | (Inr iterations', w4) \<Rightarrow>
                                (Inr \<lparr>rep_loaded = length (s_processed s2),
                                      rep_skipped = length (s_really_skiped s2),
                                      rep_total = count_total,
                                      rep_loaddata_iterations = s_i s2,
                                      rep_saving_iterations = iterations'\<rparr>,
                                 w4\<lparr>gitversion_connected := True\<rparr>)))))))"


section \<open>gitversions: the dump command\<close>

text \<open>\<open>s.split(c)\<close> for a separator of one character.\<close>

fun split_on :: "char \<Rightarrow> string \<Rightarrow> string list" where
  "split_on c [] = [[]]"
| "split_on c (x # xs) =
     (if x = c then [] # split_on c xs
      else (case split_on c xs of
              [] \<Rightarrow> [[x]]
            | p # ps \<Rightarrow> (x # p) # ps))"






text \<open>
  \<open>app_list\<close> is an \<open>OrderedDict\<close>: an association list in insertion order.
  Assigning to a key that is present keeps its position.
\<close>

type_synonym app_list = "(app_config \<times> model list option) list"







section \<open>Concrete instances\<close>

text \<open>
  A lookup that behaves as \<open>apps.get_model\<close> of Django on a table of known labels: a
  class instead of a label has no method \<open>split\<close>, a label that does not split into two
  parts at the dots cannot be unpacked, an unknown label is a \<open>LookupError\<close>.
\<close>

definition django_get_model :: "(string \<Rightarrow> model option) \<Rightarrow> dep_item \<Rightarrow> error + model" where
  "django_get_model known d =
     (case d of
        Class c \<Rightarrow> Inl (AttributeError ''split'')
      | Label l \<Rightarrow>
          (case split_on CHR ''.'' l of
             [a, b] \<Rightarrow> (case known l of None \<Rightarrow> Inl (LookupError l) | Some m \<Rightarrow> Inr m)
           | _ \<Rightarrow> Inl (ValueError l)))"

definition empty_heap :: dep_heap where
  "empty_heap = (\<lambda>a. [])"

text \<open>
  A registry with an author, a book that declares the author as a dependency and refers
  to the author, to a publisher that is not dumped and to itself, and the application
  that holds the book and the author.
\<close>

definition ex_author :: model where
  "ex_author = \<lparr>app_label = ''lib'', object_name = ''Author'', cls_name = ''Author''\<rparr>"
definition ex_book :: model where
  "ex_book = \<lparr>app_label = ''lib'', object_name = ''Book'', cls_name = ''Book''\<rparr>"
definition ex_publisher :: model where
  "ex_publisher = \<lparr>app_label = ''ext'', object_name = ''Publisher'', cls_name = ''Publisher''\<rparr>"

definition ex_registry :: registry where
  "ex_registry = \<lparr>
     get_model = django_get_model (\<lambda>l. if l = ''lib.Author'' then Some ex_author
                       else if l = ''lib.Book'' then Some ex_book else None),
     has_natural_key = (\<lambda>m. True),
     dependencies_attr = (\<lambda>m. if m = ex_book then Some 0 else None),
     meta_fields = (\<lambda>m. if m = ex_book then [None, Some ex_author, Some ex_publisher, Some ex_book] else [None]),
     meta_many_to_many = (\<lambda>m. [])\<rparr>"

definition ex_heap :: dep_heap where
  "ex_heap = (\<lambda>a. if a = 0 then [Label ''lib.Author''] else [])"

definition ex_app :: app_config where
  "ex_app = \<lparr>label = ''lib'', has_models_module = True, get_models = [ex_book, ex_author]\<rparr>"



text \<open>
  Two models that declare each other as dependencies; a model that declares itself and
  a model without natural key; and two models that inherit one \<open>natural_key\<close> whose
  list of dependencies is empty, the second referring to the first.
\<close>

definition cyc_a :: model where
  "cyc_a = \<lparr>app_label = ''app'', object_name = ''A'', cls_name = ''A''\<rparr>"
definition cyc_b :: model where
  "cyc_b = \<lparr>app_label = ''app'', object_name = ''B'', cls_name = ''B''\<rparr>"

definition self_node :: model where
  "self_node = \<lparr>app_label = ''tree'', object_name = ''Node'', cls_name = ''Node''\<rparr>"
definition plain_tag :: model where
  "plain_tag = \<lparr>app_label = ''tree'', object_name = ''Tag'', cls_name = ''Tag''\<rparr>"
definition self_registry :: registry where
  "self_registry = \<lparr>
     get_model = django_get_model (\<lambda>l. if l = ''tree.Node'' then Some self_node
                       else if l = ''tree.Tag'' then Some plain_tag else None),
     has_natural_key = (\<lambda>m. m = self_node),
     dependencies_attr = (\<lambda>m. if m = self_node then Some 0 else None),
     meta_fields = (\<lambda>m. if m = self_node then [None, Some self_node, Some plain_tag] else [None]),
     meta_many_to_many = (\<lambda>m. [])\<rparr>"
definition self_heap :: dep_heap where
  "self_heap = (\<lambda>a. if a = 0 then [Label ''tree.Node'', Label ''tree.Tag''] else [])"

definition shared_registry :: registry where
  "shared_registry = \<lparr>
     get_model = django_get_model (\<lambda>l. if l = ''app.A'' then Some cyc_a
                       else if l = ''app.B'' then Some cyc_b else None),
     has_natural_key = (\<lambda>m. True),
     dependencies_attr = (\<lambda>m. Some 0),
     meta_fields = (\<lambda>m. if m = cyc_b then [None, Some cyc_a] else [None]),
     meta_many_to_many = (\<lambda>m. [])\<rparr>"

text \<open>A store on which every save fails, records, and a store on which the first saves of a book fail.\<close>

definition broken_store :: "nat store" where
  "broken_store = \<lparr>
     allow_migrate_model = (\<lambda>using cls. app_label cls \<noteq> ''sessions''),
     obj_save = (\<lambda>obj using db. DatabaseError ''matching query does not exist'' (Suc db))\<rparr>"

definition ex_record :: "string \<Rightarrow> deserialized" where
  "ex_record pk = \<lparr>object_class = ex_book, object_pk = pk\<rparr>"

definition ex_session :: deserialized where
  "ex_session = \<lparr>object_class = \<lparr>app_label = ''sessions'', object_name = ''Session'', cls_name = ''Session''\<rparr>,
                  object_pk = ''abc''\<rparr>"



definition flaky_store :: "nat store" where
  "flaky_store = \<lparr>
     allow_migrate_model = (\<lambda>using cls. app_label cls \<noteq> ''sessions''),
     obj_save = (\<lambda>obj using db.
        if object_class obj = ex_book \<and> db < 2 then DatabaseError ''FOREIGN KEY constraint failed'' db
        else Saved (Suc db))\<rparr>"

definition ex_author_record :: deserialized where
  "ex_author_record = \<lparr>object_class = ex_author, object_pk = ''7''\<rparr>"



text \<open>Environments of the restore command.\<close>

definition ex_env :: "nat restore_env" where
  "ex_env = \<lparr>
     fixtures = [''a.json'', ''b.json'', ''c.json''],
     decode = (\<lambda>path db.
        if path = ''a.json'' then Decoded [ex_record ''1'']
        else if path = ''b.json'' then DeserializationError ''Author matching query does not exist.'' []
        else Decoded [ex_author_record]),
     tx_event = (\<lambda>k. NoTxError),
     db_store = flaky_store\<rparr>"

definition ex_world :: "nat world" where
  "ex_world = \<lparr>database = 0, gitversion_connected = True, versioned = []\<rparr>"


definition stuck_env :: "nat restore_env" where
  "stuck_env = \<lparr>
     fixtures = [''a.json''],
     decode = (\<lambda>path db. Decoded []),
     tx_event = (\<lambda>k. TxErrorOnExit),
     db_store = flaky_store\<rparr>"

definition slow_env :: "nat restore_env" where
  "slow_env = \<lparr>
     fixtures = [''a.json''],
     decode = (\<lambda>path db. Decoded []),
     tx_event = (\<lambda>k. if k < 3 then TxErrorOnExit else NoTxError),
     db_store = flaky_store\<rparr>"



definition unreadable_env :: "nat restore_env" where
  "unreadable_env = \<lparr>
     fixtures = [''a.json'', ''b.json''],
     decode = (\<lambda>path db. if path = ''a.json'' then OpenError ''Permission denied'' else Decoded []),
     tx_event = (\<lambda>k. NoTxError),
     db_store = flaky_store\<rparr>"








section \<open>Properties of sort_dependencies\<close>

subsection \<open>Invariants of a pass\<close>

lemma candidate_promotable:
  "promotable M ml (m, deps) = list_all (candidate M ml) deps"
  by (auto simp: candidate_def promotable_def list_all_iff split: dep_item.splits)

lemma promotable_mono:
  "promotable M ml p \<Longrightarrow> set ml \<subseteq> set ml' \<Longrightarrow> promotable M ml' p"
  by (auto simp: promotable_def list_all_iff split: dep_item.splits)






lemma scan_pass_promotes:
  "scan_pass M md ml sk ch = (ml', sk', ch') \<Longrightarrow> p \<in> set md \<Longrightarrow> promotable M ml p \<Longrightarrow>
   length ml < length ml'"
proof (induction md arbitrary: ml sk ch rule: rev_induct)
  case Nil
  then show ?case by simp
next
  case (snoc x md)
  obtain m deps where x: "x = (m, deps)" by (cases x)
  show ?case
  proof (cases "list_all (candidate M ml) deps")
    case True
    with snoc.prems(1) have "scan_pass M md (ml @ [m]) sk True = (ml', sk', ch')"
      unfolding x by simp
    from scan_pass_extends [OF this] show ?thesis by auto
  next
    case False
    with snoc.prems(1) have scan: "scan_pass M md ml (sk @ [(m, deps)]) ch = (ml', sk', ch')"
      unfolding x by simp
    from False snoc.prems(2,3) have "p \<in> set md"
      unfolding x by (auto simp: candidate_promotable)
    from snoc.IH [OF scan this snoc.prems(3)] show ?thesis .
  qed
qed


subsection \<open>Progress on acyclic graphs\<close>




subsection \<open>The dependency list that is built\<close>

lemma add_field_deps_fst:
  "add_field_deps reg m fs (Own deps, h) =
     (Own (deps @ map Class (filter (\<lambda>t. has_natural_key reg t \<and> t \<noteq> m) (List.map_filter (\<lambda>f. f) fs))), h)"
  by (induction fs arbitrary: deps) (auto simp: List.map_filter_simps split: option.splits)

lemma add_m2m_deps_own:
  "add_m2m_deps reg m ts (Own deps, h) =
     (Own (deps @ map Class (filter (\<lambda>t. has_natural_key reg t \<and> t \<noteq> m) ts)), h)"
  by (induction ts arbitrary: deps) auto

lemma add_field_deps_attr:
  "add_field_deps reg m fs (Attr a, h) =
     (Attr a, h(a := h a @ map Class (filter (\<lambda>t. has_natural_key reg t \<and> t \<noteq> m) (List.map_filter (\<lambda>f. f) fs))))"
  by (induction fs arbitrary: h) (auto simp: List.map_filter_simps split: option.splits)

lemma add_m2m_deps_attr:
  "add_m2m_deps reg m ts (Attr a, h) =
     (Attr a, h(a := h a @ map Class (filter (\<lambda>t. has_natural_key reg t \<and> t \<noteq> m) ts)))"
  by (induction ts arbitrary: h) auto





subsection \<open>Claim C1: acyclic dependency graphs are sorted\<close>


lemma ex_collect:
  "collect_apps ex_registry [(ex_app, None)] ({}, [], ex_heap) =
     Inr ({ex_author, ex_book},
          [(ex_book, Own [Class ex_author, Class ex_author, Class ex_publisher]), (ex_author, Own [])],
          ex_heap)"
proof -
  have b: "explicit_deps ex_registry ex_heap ex_book = Inr (Own [Class ex_author])"
    by code_simp
  have a: "explicit_deps ex_registry ex_heap ex_author = Inr (Own [])"
    by code_simp
  have fb: "meta_fields ex_registry ex_book = [None, Some ex_author, Some ex_publisher, Some ex_book]"
    and fa: "meta_fields ex_registry ex_author = [None]"
    and mm: "\<And>m. meta_many_to_many ex_registry m = []"
    and nk: "\<And>m. has_natural_key ex_registry m"
    by (simp_all add: ex_registry_def ex_book_def ex_author_def)
  have ne: "ex_author \<noteq> ex_book" "ex_publisher \<noteq> ex_book"
    by (simp_all add: ex_book_def ex_author_def ex_publisher_def)
  have mb: "model_deps ex_registry ex_book ex_heap =
      Inr (Own [Class ex_author, Class ex_author, Class ex_publisher], ex_heap)"
    by (simp add: model_deps_def b fb mm nk ne)
  have ma: "model_deps ex_registry ex_author ex_heap = Inr (Own [], ex_heap)"
    by (simp add: model_deps_def a fa mm)
  have g: "get_models ex_app = [ex_book, ex_author]" by (simp add: ex_app_def)
  show ?thesis
    by (simp add: g mb ma insert_commute)
qed



subsection \<open>Claim C2: failure of sort_dependencies\<close>















subsection \<open>Claim C8: the dependency list of a model\<close>

lemma model_deps_own:
  assumes "\<not> keeps_attribute_list reg h m" "model_deps reg m h = Inr (r, h')"
  shows "h' = h \<and> (\<exists>declared. resolve_deps reg (declared_items reg h m) = Inr declared \<and>
           r = Own (map Class declared @ map Class (natural_key_targets reg m)))"
proof -
  from assms(2) obtain r0 where ex: "explicit_deps reg h m = Inr r0"
    and res: "(r, h') = add_m2m_deps reg m (meta_many_to_many reg m)
                 (add_field_deps reg m (meta_fields reg m) (r0, h))"
    by (auto simp: model_deps_def split: sum.splits)
  from ex assms(1) obtain declared where d: "resolve_deps reg (declared_items reg h m) = Inr declared"
    and r0: "r0 = Own (map Class declared)"
    by (auto simp: explicit_deps_def keeps_attribute_list_def declared_items_def
        split: if_splits option.splits sum.splits)
  from res have "r = Own (map Class declared @ map Class (natural_key_targets reg m))" "h' = h"
    unfolding r0
    by (simp_all add: add_field_deps_fst add_m2m_deps_own natural_key_targets_def relation_targets_def)
  with d show ?thesis by blast
qed

lemma model_deps_kept:
  assumes "keeps_attribute_list reg h m" "model_deps reg m h = Inr (r, h')"
  shows "\<exists>a. dependencies_attr reg m = Some a \<and> r = Attr a \<and>
           h' = h(a := map Class (natural_key_targets reg m))"
proof -
  from assms(1) obtain a where a: "has_natural_key reg m" "dependencies_attr reg m = Some a" "h a = []"
    by (auto simp: keeps_attribute_list_def split: option.splits)
  then have ex: "explicit_deps reg h m = Inr (Attr a)"
    by (simp add: explicit_deps_def)
  with assms(2) have res: "(r, h') = add_m2m_deps reg m (meta_many_to_many reg m)
                 (add_field_deps reg m (meta_fields reg m) (Attr a, h))"
    by (simp add: model_deps_def)
  then have "r = Attr a" "h' = h(a := map Class (natural_key_targets reg m))"
    using a(3)
    by (simp_all add: add_field_deps_attr add_m2m_deps_attr natural_key_targets_def relation_targets_def)
  with a(2) show ?thesis by blast
qed

lemma collect_models_own:
  assumes "\<forall>x\<in>set ms. \<not> keeps_attribute_list reg h x"
    and "collect_models reg ms (M, md, h) = Inr (M', md', h')"
  shows "h' = h \<and> (\<exists>new. md' = md @ new \<and> map fst new = ms \<and>
           (\<forall>p\<in>set new. \<exists>declared. resolve_deps reg (declared_items reg h (fst p)) = Inr declared \<and>
              snd p = Own (map Class declared @ map Class (natural_key_targets reg (fst p)))))"
  using assms
proof (induction ms arbitrary: M md)
  case Nil
  then show ?case by simp
next
  case (Cons m ms)
  from Cons.prems(2) obtain r h1 where md: "model_deps reg m h = Inr (r, h1)"
    and rest: "collect_models reg ms (insert m M, md @ [(m, r)], h1) = Inr (M', md', h')"
    by (auto split: sum.splits)
  from Cons.prems(1) have nk: "\<not> keeps_attribute_list reg h m"
    and nks: "\<forall>x\<in>set ms. \<not> keeps_attribute_list reg h x" by simp_all
  from model_deps_own [OF nk md] obtain declared where h1: "h1 = h"
    and d: "resolve_deps reg (declared_items reg h m) = Inr declared"
      "r = Own (map Class declared @ map Class (natural_key_targets reg m))" by blast
  from Cons.IH [OF nks rest [unfolded h1]] obtain new where new: "h' = h"
    "md' = (md @ [(m, r)]) @ new" "map fst new = ms"
    "\<forall>p\<in>set new. \<exists>declared. resolve_deps reg (declared_items reg h (fst p)) = Inr declared \<and>
              snd p = Own (map Class declared @ map Class (natural_key_targets reg (fst p)))"
    by blast
  show ?case
  proof (intro conjI exI [of _ "(m, r) # new"] ballI)
    show "h' = h" by (rule new(1))
    show "md' = md @ (m, r) # new" using new(2) by simp
    show "map fst ((m, r) # new) = m # ms" using new(3) by simp
    fix p assume "p \<in> set ((m, r) # new)"
    then show "\<exists>declared. resolve_deps reg (declared_items reg h (fst p)) = Inr declared \<and>
              snd p = Own (map Class declared @ map Class (natural_key_targets reg (fst p)))"
      using d new(4) by auto
  qed
qed

lemma collect_apps_own:
  assumes "\<forall>x\<in>set (input_models app_list). \<not> keeps_attribute_list reg h x"
    and "collect_apps reg app_list (M, md, h) = Inr (M', md', h')"
  shows "h' = h \<and> (\<exists>new. md' = md @ new \<and> map fst new = input_models app_list \<and>
           (\<forall>p\<in>set new. \<exists>declared. resolve_deps reg (declared_items reg h (fst p)) = Inr declared \<and>
              snd p = Own (map Class declared @ map Class (natural_key_targets reg (fst p)))))"
  using assms
proof (induction app_list arbitrary: M md)
  case Nil
  then show ?case by (simp add: input_models_def)
next
  case (Cons a app_list)
  obtain ac model_list where a: "a = (ac, model_list)" by (cases a)
  define ms where "ms = (case model_list of None \<Rightarrow> get_models ac | Some ms \<Rightarrow> ms)"
  have split: "input_models (a # app_list) = ms @ input_models app_list"
    by (simp add: input_models_def a ms_def)
  from Cons.prems(2) obtain M1 md1 h1 where c1: "collect_models reg ms (M, md, h) = Inr (M1, md1, h1)"
    and c2: "collect_apps reg app_list (M1, md1, h1) = Inr (M', md', h')"
    unfolding a by (auto simp: ms_def split: sum.splits)
  from Cons.prems(1) have k1: "\<forall>x\<in>set ms. \<not> keeps_attribute_list reg h x"
    and k2: "\<forall>x\<in>set (input_models app_list). \<not> keeps_attribute_list reg h x"
    unfolding split by simp_all
  from collect_models_own [OF k1 c1] obtain new1 where n1: "h1 = h" "md1 = md @ new1" "map fst new1 = ms"
    "\<forall>p\<in>set new1. \<exists>declared. resolve_deps reg (declared_items reg h (fst p)) = Inr declared \<and>
              snd p = Own (map Class declared @ map Class (natural_key_targets reg (fst p)))"
    by blast
  from Cons.IH [OF k2 c2 [unfolded n1(1)]] obtain new2 where n2: "h' = h" "md' = md1 @ new2"
    "map fst new2 = input_models app_list"
    "\<forall>p\<in>set new2. \<exists>declared. resolve_deps reg (declared_items reg h (fst p)) = Inr declared \<and>
              snd p = Own (map Class declared @ map Class (natural_key_targets reg (fst p)))"
    by blast
  show ?case
  proof (intro conjI exI [of _ "new1 @ new2"] ballI)
    show "h' = h" by (rule n2(1))
    show "md' = md @ new1 @ new2" using n1(2) n2(2) by simp
    show "map fst (new1 @ new2) = input_models (a # app_list)"
      unfolding split using n1(3) n2(3) by simp
    fix p assume "p \<in> set (new1 @ new2)"
    then show "\<exists>declared. resolve_deps reg (declared_items reg h (fst p)) = Inr declared \<and>
              snd p = Own (map Class declared @ map Class (natural_key_targets reg (fst p)))"
      using n1(4) n2(4) by auto
  qed
qed

text \<open>
  C8 (as amended).  Take a model for which the code does not keep the list object of
  \<open>natural_key.dependencies\<close> (it has no natural key, or no such attribute, or the
  list is not empty).  Its dependency list is a list of its own: the declared
  dependencies, each looked up in the registry and taken as declared, followed by the
  targets of its foreign-key and many-to-many fields that have a natural key and are not
  the model itself.  When this holds for all the input models, these are the lists of
  the dependency list that \<open>sort_dependencies\<close> builds.  A target is added on account
  of a relation only when it has a natural key and is not the model of the relation.
  (What the code does with an empty list of dependencies is in the theorem as well: it
  appends the targets to the list object of the attribute.)
\<close>

theorem model_deps_union:
  "(\<forall>r h'. model_deps reg m h = Inr (r, h') \<longrightarrow>
      (\<not> keeps_attribute_list reg h m \<longrightarrow>
         h' = h \<and>
         (\<exists>declared. resolve_deps reg (declared_items reg h m) = Inr declared \<and>
            r = Own (map Class declared @ map Class (natural_key_targets reg m)))) \<and>
      (keeps_attribute_list reg h m \<longrightarrow>
         (\<exists>a. dependencies_attr reg m = Some a \<and> r = Attr a \<and>
            h' = h(a := map Class (natural_key_targets reg m))))) \<and>
   (\<forall>M refs h'.
      collect_apps reg app_list ({}, [], h) = Inr (M, refs, h') \<and>
      (\<forall>x\<in>set (input_models app_list). \<not> keeps_attribute_list reg h x) \<longrightarrow>
      h' = h \<and> map fst refs = input_models app_list \<and>
      (\<forall>p\<in>set refs. \<exists>declared. resolve_deps reg (declared_items reg h (fst p)) = Inr declared \<and>
         snd p = Own (map Class declared @ map Class (natural_key_targets reg (fst p))))) \<and>
   (\<forall>t\<in>set (natural_key_targets reg m).
      has_natural_key reg t \<and> t \<noteq> m \<and> t \<in> set (relation_targets reg m))"
proof (intro conjI allI impI ballI)
  fix r h'
  assume md: "model_deps reg m h = Inr (r, h')"
  {
    assume nk: "\<not> keeps_attribute_list reg h m"
    from model_deps_own [OF nk md]
    show "h' = h" and "\<exists>declared. resolve_deps reg (declared_items reg h m) = Inr declared \<and>
            r = Own (map Class declared @ map Class (natural_key_targets reg m))"
      by simp_all
  }
  assume k: "keeps_attribute_list reg h m"
  from model_deps_kept [OF k md]
  show "\<exists>a. dependencies_attr reg m = Some a \<and> r = Attr a \<and>
            h' = h(a := map Class (natural_key_targets reg m))" .
next
  fix M refs h'
  assume a: "collect_apps reg app_list ({}, [], h) = Inr (M, refs, h') \<and>
      (\<forall>x\<in>set (input_models app_list). \<not> keeps_attribute_list reg h x)"
  then have c: "collect_apps reg app_list ({}, [], h) = Inr (M, refs, h')"
    and k: "\<forall>x\<in>set (input_models app_list). \<not> keeps_attribute_list reg h x" by simp_all
  from collect_apps_own [OF k c]
  show "h' = h" and "map fst refs = input_models app_list" by auto
  fix p assume "p \<in> set refs"
  with collect_apps_own [OF k c]
  show "\<exists>declared. resolve_deps reg (declared_items reg h (fst p)) = Inr declared \<and>
         snd p = Own (map Class declared @ map Class (natural_key_targets reg (fst p)))"
    by auto
next
  fix t assume "t \<in> set (natural_key_targets reg m)"
  then show "has_natural_key reg t" "t \<noteq> m" "t \<in> set (relation_targets reg m)"
    by (simp_all add: natural_key_targets_def)
qed

lemma self_model_deps:
  "model_deps self_registry self_node self_heap = Inr (Own [Class self_node, Class plain_tag], self_heap)"
proof -
  have e: "explicit_deps self_registry self_heap self_node = Inr (Own [Class self_node, Class plain_tag])"
    by code_simp
  have f: "meta_fields self_registry self_node = [None, Some self_node, Some plain_tag]"
    "meta_many_to_many self_registry self_node = []"
    "\<not> has_natural_key self_registry plain_tag"
    by (simp_all add: self_registry_def self_node_def plain_tag_def)
  show ?thesis by (simp add: model_deps_def e f)
qed

theorem model_deps_union_witness:
  "model_deps self_registry self_node self_heap = Inr (Own [Class self_node, Class plain_tag], self_heap) \<and>
   \<not> keeps_attribute_list self_registry self_heap self_node \<and>
   declared_items self_registry self_heap self_node = [Label ''tree.Node'', Label ''tree.Tag''] \<and>
   natural_key_targets self_registry self_node = [] \<and>
   natural_key_targets ex_registry ex_book = [ex_author, ex_publisher] \<and>
   collect_apps ex_registry [(ex_app, None)] ({}, [], ex_heap) =
     Inr ({ex_author, ex_book},
          [(ex_book, Own [Class ex_author, Class ex_author, Class ex_publisher]), (ex_author, Own [])],
          ex_heap) \<and>
   keeps_attribute_list shared_registry empty_heap cyc_b \<and>
   natural_key_targets shared_registry cyc_b = [cyc_a]"
proof -
  have a: "\<not> keeps_attribute_list self_registry self_heap self_node" by code_simp
  have b: "declared_items self_registry self_heap self_node = [Label ''tree.Node'', Label ''tree.Tag'']"
    by code_simp
  have c: "natural_key_targets self_registry self_node = []" by code_simp
  have d: "natural_key_targets ex_registry ex_book = [ex_author, ex_publisher]" by code_simp
  have e: "keeps_attribute_list shared_registry empty_heap cyc_b" by code_simp
  have f: "natural_key_targets shared_registry cyc_b = [cyc_a]" by code_simp
  show ?thesis
    using model_deps_union [of self_registry self_node self_heap "[]"]
      model_deps_union [of ex_registry ex_book ex_heap "[(ex_app, None)]"]
    by (intro conjI self_model_deps a b c d e f ex_collect)
qed

text \<open>
  C8 as stated fails: a model that declares itself (and a model without natural key) as a
  natural-key dependency has both in its dependency list.
\<close>

theorem model_deps_self_edge_counterexample:
  "model_deps self_registry self_node self_heap = Inr (Own [Class self_node, Class plain_tag], self_heap) \<and>
   \<not> has_natural_key self_registry plain_tag"
proof -
  have "\<not> has_natural_key self_registry plain_tag"
    by (simp add: self_registry_def self_node_def plain_tag_def)
  with self_model_deps show ?thesis by (intro conjI)
qed

section \<open>Properties of save_all\<close>

lemma save_objects_never_raises:
  "never_raises st u \<Longrightarrow> \<exists>sk er db'. save_objects st u objs skiped errs db = (Inr (sk, er), db')"
proof (induction objs arbitrary: skiped errs db)
  case Nil
  then show ?case by simp
next
  case (Cons obj objs)
  show ?case
  proof (cases "allow_migrate_model st u (object_class obj)")
    case False
    then show ?thesis using Cons.IH [OF Cons.prems] by simp
  next
    case True
    show ?thesis
    proof (cases "obj_save st obj u db")
      case (Saved db')
      with True show ?thesis using Cons.IH [OF Cons.prems] by simp
    next
      case (DatabaseError e db')
      with True show ?thesis using Cons.IH [OF Cons.prems] by simp
    next
      case (OtherException e db')
      with Cons.prems show ?thesis by (simp add: never_raises_def)
    qed
  qed
qed

lemma save_all_bounds:
  "fst (save_all st objs u i db) = Inr n \<Longrightarrow> i \<le> n \<and> n \<le> max i 25"
proof (induction st objs u i db rule: save_all.induct)
  case (1 st objects u iterations db)
  show ?case
  proof (cases "length objects = 0 \<or> iterations \<ge> 25")
    case True
    with "1.prems" show ?thesis by (auto simp: save_all.simps [of st objects])
  next
    case False
    obtain r db' where pass: "save_objects st u objects [] [] db = (r, db')"
      by (cases "save_objects st u objects [] [] db")
    show ?thesis
    proof (cases r)
      case (Inl e)
      with "1.prems" False pass show ?thesis by (simp add: save_all.simps [of st objects])
    next
      case (Inr p)
      obtain skiped errs where p: "p = (skiped, errs)" by (cases p)
      show ?thesis
      proof (cases "length skiped > 0")
        case True
        with "1.prems" False pass Inr p
        have "fst (save_all st skiped u (iterations + 1) db') = Inr n"
          by (simp add: save_all.simps [of st objects])
        from "1.IH" [OF False pass [symmetric] Inr p [symmetric] True this]
        show ?thesis using False by auto
      next
        case F: False
        with "1.prems" False pass Inr p show ?thesis
          by (simp add: save_all.simps [of st objects])
      qed
    qed
  qed
qed

lemma save_all_returns:
  "never_raises st u \<Longrightarrow> \<exists>n. fst (save_all st objs u i db) = Inr n"
proof (induction st objs u i db rule: save_all.induct)
  case (1 st objects u iterations db)
  show ?case
  proof (cases "length objects = 0 \<or> iterations \<ge> 25")
    case True
    then show ?thesis by (auto simp: save_all.simps [of st objects])
  next
    case False
    from save_objects_never_raises [OF "1.prems"]
    obtain skiped errs db' where pass: "save_objects st u objects [] [] db = (Inr (skiped, errs), db')"
      by blast
    show ?thesis
    proof (cases "length skiped > 0")
      case True
      from "1.IH" [OF False pass [symmetric] refl refl True "1.prems"]
      show ?thesis using False pass True by (simp add: save_all.simps [of st objects])
    next
      case F: False
      with False pass show ?thesis by (simp add: save_all.simps [of st objects])
    qed
  qed
qed

lemma save_all_retry:
  assumes "objs \<noteq> []" "i < 25" "save_objects st u objs [] [] db = (Inr (sk, errs), db')" "sk \<noteq> []"
  shows "save_all st objs u i db = save_all st sk u (i + 1) db'"
  using assms by (simp add: save_all.simps [of st objs])

subsection \<open>Claim C3: the retry rounds are bounded\<close>

text \<open>
  C3.  \<open>save_all\<close> is a total function (its recursion ends because the counter
  grows by one in each retry round and stops the recursion at 25).  The count it returns
  is at least the counter it was started with and at most the larger of that counter and
  25: started at a counter of at most 25 (the default is 0) it never exceeds 25.  It
  returns a count whenever no save raises an exception other than a database error; it
  returns the current count at once when there are no objects or the counter has reached
  25; otherwise one pass is made, and a non-empty retry set is passed on with the counter
  incremented by one, an empty one ends the recursion with the current count.
\<close>

theorem save_all_bounded:
  "(\<forall>n. fst (save_all st objs u i db) = Inr n \<longrightarrow> i \<le> n \<and> n \<le> max i 25) \<and>
   (\<forall>n. i \<le> 25 \<and> fst (save_all st objs u i db) = Inr n \<longrightarrow> n \<le> 25) \<and>
   (\<forall>n. fst (save_all st objs u 0 db) = Inr n \<longrightarrow> 0 \<le> n \<and> n \<le> 25) \<and>
   (never_raises st u \<longrightarrow> (\<exists>n. fst (save_all st objs u i db) = Inr n)) \<and>
   (objs = [] \<or> 25 \<le> i \<longrightarrow> save_all st objs u i db = (Inr i, db)) \<and>
   (\<forall>sk errs db'. objs \<noteq> [] \<and> i < 25 \<and>
        save_objects st u objs [] [] db = (Inr (sk, errs), db') \<longrightarrow>
        save_all st objs u i db =
          (if sk = [] then (Inr i, db') else save_all st sk u (i + 1) db'))"
proof (intro conjI allI impI)
  fix n assume "fst (save_all st objs u i db) = Inr n"
  from save_all_bounds [OF this] show "i \<le> n" "n \<le> max i 25" by simp_all
next
  fix n assume "i \<le> 25 \<and> fst (save_all st objs u i db) = Inr n"
  then have "i \<le> 25" "fst (save_all st objs u i db) = Inr n" by simp_all
  from save_all_bounds [OF this(2)] this(1) show "n \<le> 25" by simp
next
  fix n assume "fst (save_all st objs u 0 db) = Inr n"
  from save_all_bounds [OF this] show "0 \<le> n" "n \<le> 25" by simp_all
next
  assume "never_raises st u"
  then show "\<exists>n. fst (save_all st objs u i db) = Inr n" by (rule save_all_returns)
next
  assume "objs = [] \<or> 25 \<le> i"
  then show "save_all st objs u i db = (Inr i, db)"
    by (auto simp: save_all.simps [of st objs])
next
  fix sk errs db'
  assume "objs \<noteq> [] \<and> i < 25 \<and> save_objects st u objs [] [] db = (Inr (sk, errs), db')"
  then show "save_all st objs u i db =
          (if sk = [] then (Inr i, db') else save_all st sk u (i + 1) db')"
    by (simp add: save_all.simps [of st objs])
qed


lemma broken_never_raises: "never_raises broken_store ''default''"
  by (simp add: never_raises_def broken_store_def)

theorem save_all_bounded_witness:
  "never_raises broken_store ''default'' \<and>
   save_all broken_store [ex_record ''1'', ex_session, ex_record ''2''] ''default'' 0 0 = (Inr 25, 50) \<and>
   save_all broken_store [] ''default'' 0 0 = (Inr 0, 0)"
proof -
  have a: "save_all broken_store [ex_record ''1'', ex_session, ex_record ''2''] ''default'' 0 0 = (Inr 25, 50)"
    by code_simp
  have c: "save_all broken_store [] ''default'' 0 0 = (Inr 0, 0)"
    by code_simp
  show ?thesis
    using save_all_bounded [of broken_store "[ex_record ''1'', ex_session, ex_record ''2'']" "''default''" 0 0]
    by (intro conjI a c broken_never_raises)
qed

subsection \<open>Claim C4: database errors are collected, not raised\<close>

lemma save_objects_append:
  "save_objects st u before sk errs db = (Inr (sk1, errs1), db1) \<Longrightarrow>
   save_objects st u (before @ rest) sk errs db = save_objects st u rest sk1 errs1 db1"
proof (induction before arbitrary: sk errs db)
  case Nil
  then show ?case by simp
next
  case (Cons obj before)
  show ?case
  proof (cases "allow_migrate_model st u (object_class obj)")
    case False
    with Cons.prems Cons.IH show ?thesis by simp
  next
    case True
    show ?thesis
    proof (cases "obj_save st obj u db")
      case (Saved db')
      with True Cons.prems Cons.IH show ?thesis by simp
    next
      case (DatabaseError e db')
      with True Cons.prems Cons.IH show ?thesis by simp
    next
      case (OtherException e db')
      with True Cons.prems show ?thesis by simp
    qed
  qed
qed

lemma save_objects_extends:
  "save_objects st u objs sk errs db = (Inr (sk', errs'), db') \<Longrightarrow>
   (\<exists>xs. sk' = sk @ xs \<and> (\<forall>obj\<in>set xs. obj \<in> set objs \<and> allow_migrate_model st u (object_class obj))) \<and>
   (\<exists>ys. errs' = errs @ ys)"
proof (induction objs arbitrary: sk errs db)
  case Nil
  then show ?case by simp
next
  case (Cons obj objs)
  show ?case
  proof (cases "allow_migrate_model st u (object_class obj)")
    case False
    with Cons.prems have "save_objects st u objs sk errs db = (Inr (sk', errs'), db')" by simp
    from Cons.IH [OF this] show ?thesis by auto
  next
    case True
    show ?thesis
    proof (cases "obj_save st obj u db")
      case (Saved db1)
      with True Cons.prems have "save_objects st u objs sk errs db1 = (Inr (sk', errs'), db')" by simp
      from Cons.IH [OF this] show ?thesis by auto
    next
      case (DatabaseError e db1)
      with True Cons.prems
      have "save_objects st u objs (sk @ [obj]) (errs @ [could_not_load obj e]) db1 = (Inr (sk', errs'), db')"
        by simp
      from Cons.IH [OF this] True show ?thesis by auto
    next
      case (OtherException e db1)
      with True Cons.prems show ?thesis by simp
    qed
  qed
qed

text \<open>
  C4.  Take a record that the routing policy accepts and whose save fails with a
  database error, the records before it having been processed without an exception.  The
  pass goes on with the records after it, the record appended to \<open>skiped\<close> and the
  text \<open>Could not load app_label.object_name(pk=...): error\<close> assigned to the
  exception; so when the pass ends, the record is in the retry set, which the next round
  (with the counter incremented) receives while the counter is below 25.  Nothing is
  raised for it: \<open>save_all\<close> returns a count whenever no save raises an exception other
  than a database error.
\<close>

theorem save_all_collects_database_error:
  assumes before: "save_objects st u before [] [] db = (Inr (sk1, errs1), db1)"
    and allowed: "allow_migrate_model st u (object_class obj)"
    and fails: "obj_save st obj u db1 = DatabaseError e db2"
  shows "save_objects st u (before @ obj # rest) [] [] db =
           save_objects st u rest (sk1 @ [obj])
             (errs1 @ [''Could not load '' @ app_label (object_class obj) @ ''.'' @
                       object_name (object_class obj) @ ''(pk='' @ object_pk obj @ ''): '' @ e]) db2 \<and>
         (\<forall>sk errs db3.
            save_objects st u (before @ obj # rest) [] [] db = (Inr (sk, errs), db3) \<longrightarrow>
            obj \<in> set sk \<and> could_not_load obj e \<in> set errs \<and>
            (i < 25 \<longrightarrow> save_all st (before @ obj # rest) u i db = save_all st sk u (i + 1) db3)) \<and>
         (never_raises st u \<longrightarrow> (\<exists>n. fst (save_all st (before @ obj # rest) u i db) = Inr n))"
proof (intro conjI allI impI)
  have step: "save_objects st u (obj # rest) sk1 errs1 db1 =
     save_objects st u rest (sk1 @ [obj]) (errs1 @ [could_not_load obj e]) db2"
    using allowed fails by simp
  show eq: "save_objects st u (before @ obj # rest) [] [] db =
           save_objects st u rest (sk1 @ [obj])
             (errs1 @ [''Could not load '' @ app_label (object_class obj) @ ''.'' @
                       object_name (object_class obj) @ ''(pk='' @ object_pk obj @ ''): '' @ e]) db2"
    using save_objects_append [OF before, of "obj # rest"] step
    by (simp add: could_not_load_def)
  fix sk errs db3
  assume res: "save_objects st u (before @ obj # rest) [] [] db = (Inr (sk, errs), db3)"
  then have "save_objects st u rest (sk1 @ [obj]) (errs1 @ [could_not_load obj e]) db2 = (Inr (sk, errs), db3)"
    using save_objects_append [OF before, of "obj # rest"] step by simp
  from save_objects_extends [OF this]
  show in_sk: "obj \<in> set sk" and "could_not_load obj e \<in> set errs" by auto
  assume "i < 25"
  moreover from in_sk have "sk \<noteq> []" by auto
  ultimately show "save_all st (before @ obj # rest) u i db = save_all st sk u (i + 1) db3"
    using res by (simp add: save_all.simps [of st "before @ obj # rest"])
next
  assume "never_raises st u"
  then show "\<exists>n. fst (save_all st (before @ obj # rest) u i db) = Inr n"
    by (rule save_all_returns)
qed


theorem save_all_collects_database_error_witness:
  "save_objects flaky_store ''default'' [ex_author_record] [] [] 0 = (Inr ([], []), 1) \<and>
   allow_migrate_model flaky_store ''default'' (object_class (ex_record ''1'')) \<and>
   obj_save flaky_store (ex_record ''1'') ''default'' 1 = DatabaseError ''FOREIGN KEY constraint failed'' 1 \<and>
   save_objects flaky_store ''default'' ([ex_author_record] @ ex_record ''1'' # [ex_session, ex_author_record]) [] [] 0 =
     (Inr ([ex_record ''1''], [''Could not load lib.Book(pk=1): FOREIGN KEY constraint failed'']), 2) \<and>
   save_all flaky_store ([ex_author_record] @ ex_record ''1'' # [ex_session, ex_author_record]) ''default'' 0 0 =
     save_all flaky_store [ex_record ''1''] ''default'' (0 + 1) 2 \<and>
   save_all flaky_store ([ex_author_record] @ ex_record ''1'' # [ex_session, ex_author_record]) ''default'' 0 0 = (Inr 1, 3)"
proof -
  have before: "save_objects flaky_store ''default'' [ex_author_record] [] [] 0 = (Inr ([], []), 1)"
    by code_simp
  have allowed: "allow_migrate_model flaky_store ''default'' (object_class (ex_record ''1''))"
    by code_simp
  have fails: "obj_save flaky_store (ex_record ''1'') ''default'' 1 = DatabaseError ''FOREIGN KEY constraint failed'' 1"
    by code_simp
  have pass: "save_objects flaky_store ''default'' ([ex_author_record] @ ex_record ''1'' # [ex_session, ex_author_record]) [] [] 0 =
     (Inr ([ex_record ''1''], [''Could not load lib.Book(pk=1): FOREIGN KEY constraint failed'']), 2)"
    by code_simp
  have res: "save_all flaky_store ([ex_author_record] @ ex_record ''1'' # [ex_session, ex_author_record]) ''default'' 0 0 = (Inr 1, 3)"
    by code_simp
  note inst = save_all_collects_database_error [OF before allowed fails, of "[ex_session, ex_author_record]" 0]
  from inst pass have "save_all flaky_store ([ex_author_record] @ ex_record ''1'' # [ex_session, ex_author_record]) ''default'' 0 0 =
     save_all flaky_store [ex_record ''1''] ''default'' (0 + 1) 2"
    by simp
  then show ?thesis
    by (intro conjI before allowed fails pass res)
qed

subsection \<open>Claim C9: records rejected by the routing policy are dropped\<close>

lemma save_objects_filter:
  "save_objects st u objs sk errs db = save_objects st u (filter (routable st u) objs) sk errs db"
proof (induction objs arbitrary: sk errs db)
  case Nil
  then show ?case by simp
next
  case (Cons obj objs)
  show ?case
  proof (cases "allow_migrate_model st u (object_class obj)")
    case False
    then show ?thesis using Cons.IH by (simp add: routable_def)
  next
    case True
    then show ?thesis using Cons.IH
      by (cases "obj_save st obj u db") (simp_all add: routable_def)
  qed
qed

lemma save_objects_skiped_routable:
  assumes "save_objects st u objs [] [] db = (Inr (sk, errs), db')"
  shows "filter (routable st u) sk = sk"
proof -
  from save_objects_extends [OF assms]
  have "\<forall>obj\<in>set sk. routable st u obj" by (auto simp: routable_def)
  then show ?thesis by (simp add: filter_id_conv)
qed

lemma save_objects_lengths:
  "save_objects st u objs sk errs db = (Inr (sk', errs'), db') \<Longrightarrow>
   length errs' + length sk = length sk' + length errs"
proof (induction objs arbitrary: sk errs db)
  case Nil
  then show ?case by simp
next
  case (Cons obj objs)
  show ?case
  proof (cases "allow_migrate_model st u (object_class obj)")
    case False
    with Cons.prems have "save_objects st u objs sk errs db = (Inr (sk', errs'), db')" by simp
    from Cons.IH [OF this] show ?thesis .
  next
    case True
    show ?thesis
    proof (cases "obj_save st obj u db")
      case (Saved db1)
      with True Cons.prems have "save_objects st u objs sk errs db1 = (Inr (sk', errs'), db')" by simp
      from Cons.IH [OF this] show ?thesis .
    next
      case (DatabaseError e db1)
      with True Cons.prems
      have "save_objects st u objs (sk @ [obj]) (errs @ [could_not_load obj e]) db1 = (Inr (sk', errs'), db')"
        by simp
      from Cons.IH [OF this] show ?thesis by simp
    next
      case (OtherException e db1)
      with True Cons.prems show ?thesis by simp
    qed
  qed
qed

lemma save_all_filter:
  "save_all st objs u i db = save_all st (filter (routable st u) objs) u i db"
proof (cases "25 \<le> i")
  case True
  then show ?thesis by (simp add: save_all.simps [of st _ u i])
next
  case False
  obtain r db' where pass: "save_objects st u objs [] [] db = (r, db')"
    by (cases "save_objects st u objs [] [] db")
  then have pass': "save_objects st u (filter (routable st u) objs) [] [] db = (r, db')"
    using save_objects_filter [of st u objs "[]" "[]" db] by simp
  show ?thesis
  proof (cases "filter (routable st u) objs = []")
    case True
    with pass' have r: "r = Inr ([], [])" "db' = db" by simp_all
    show ?thesis
      using False pass r True
      by (cases "objs = []") (simp_all add: save_all.simps [of st _ u i])
  next
    case nonempty: False
    then have "objs \<noteq> []" by auto
    with nonempty False pass pass' show ?thesis
      by (simp add: save_all.simps [of st objs] save_all.simps [of st "filter (routable st u) objs"])
  qed
qed

text \<open>
  C9.  A record whose class the routing policy rejects for the target store changes
  nothing: the pass, and \<open>save_all\<close>, give the same result, the same retry set, the
  same error texts and the same final state of the store as on the list without the
  record (no save is attempted for it).  Every record of the retry set is one the policy
  accepts, and there is exactly one error text per record of the retry set.
\<close>

theorem save_all_drops_unroutable:
  "(\<not> allow_migrate_model st u (object_class obj) \<longrightarrow>
      save_objects st u (before @ obj # rest) [] [] db = save_objects st u (before @ rest) [] [] db \<and>
      save_all st (before @ obj # rest) u i db = save_all st (before @ rest) u i db) \<and>
   save_objects st u objs [] [] db = save_objects st u (filter (routable st u) objs) [] [] db \<and>
   save_all st objs u i db = save_all st (filter (routable st u) objs) u i db \<and>
   (\<forall>sk errs db'. save_objects st u objs [] [] db = (Inr (sk, errs), db') \<longrightarrow>
      (\<forall>x\<in>set sk. allow_migrate_model st u (object_class x)) \<and> length errs = length sk)"
proof (intro conjI impI allI)
  assume rej: "\<not> allow_migrate_model st u (object_class obj)"
  then have f: "filter (routable st u) (before @ obj # rest) = filter (routable st u) (before @ rest)"
    by (simp add: routable_def)
  show "save_objects st u (before @ obj # rest) [] [] db = save_objects st u (before @ rest) [] [] db"
    using save_objects_filter [of st u "before @ obj # rest" "[]" "[]" db]
      save_objects_filter [of st u "before @ rest" "[]" "[]" db] f by simp
  show "save_all st (before @ obj # rest) u i db = save_all st (before @ rest) u i db"
    using save_all_filter [of st "before @ obj # rest" u i db]
      save_all_filter [of st "before @ rest" u i db] f by simp
next
  show "save_objects st u objs [] [] db = save_objects st u (filter (routable st u) objs) [] [] db"
    by (rule save_objects_filter)
  show "save_all st objs u i db = save_all st (filter (routable st u) objs) u i db"
    by (rule save_all_filter)
next
  fix sk errs db'
  assume res: "save_objects st u objs [] [] db = (Inr (sk, errs), db')"
  from save_objects_extends [OF res]
  show "\<forall>x\<in>set sk. allow_migrate_model st u (object_class x)" by auto
  from save_objects_lengths [OF res] show "length errs = length sk" by simp
qed


theorem save_all_drops_unroutable_witness:
  "\<not> allow_migrate_model flaky_store ''default'' (object_class ex_session) \<and>
   save_objects flaky_store ''default'' ([ex_record ''1''] @ ex_session # [ex_author_record]) [] [] 0 =
     save_objects flaky_store ''default'' ([ex_record ''1''] @ [ex_author_record]) [] [] 0 \<and>
   save_objects flaky_store ''default'' ([ex_record ''1''] @ ex_session # [ex_author_record]) [] [] 0 =
     (Inr ([ex_record ''1''], [''Could not load lib.Book(pk=1): FOREIGN KEY constraint failed'']), 1) \<and>
   save_objects flaky_store ''default'' [ex_session] [] [] 0 = (Inr ([], []), 0) \<and>
   save_all flaky_store [ex_session] ''default'' 0 0 = (Inr 0, 0)"
proof -
  have rej: "\<not> allow_migrate_model flaky_store ''default'' (object_class ex_session)"
    by code_simp
  have a: "save_objects flaky_store ''default'' ([ex_record ''1''] @ ex_session # [ex_author_record]) [] [] 0 =
     (Inr ([ex_record ''1''], [''Could not load lib.Book(pk=1): FOREIGN KEY constraint failed'']), 1)"
    by code_simp
  have b: "save_objects flaky_store ''default'' [ex_session] [] [] 0 = (Inr ([], []), 0)"
    by code_simp
  have c: "save_all flaky_store [ex_session] ''default'' 0 0 = (Inr 0, 0)"
    by code_simp
  from save_all_drops_unroutable [of flaky_store "''default''" ex_session "[ex_record ''1'']" "[ex_author_record]" 0 0 "[]"] rej
  have "save_objects flaky_store ''default'' ([ex_record ''1''] @ ex_session # [ex_author_record]) [] [] 0 =
     save_objects flaky_store ''default'' ([ex_record ''1''] @ [ex_author_record]) [] [] 0"
    by blast
  then show ?thesis
    by (intro conjI rej a b c)
qed

section \<open>Properties of the restore command\<close>

subsection \<open>Claim C5: the first loop over the fixture files\<close>

lemma ingest_pass_no_tx:
  assumes "tx_event env (s_i s) = NoTxError" "ingest_pass env db s = Inr s'"
  shows "length (s_unloaded s') = length (s_unloaded s) div 2 \<and> s_i s' = s_i s + 1"
  using assms
  by (auto simp: ingest_pass_def split: sum.splits dest: loaddata_length)

lemma ingest_loop_no_tx:
  assumes "\<forall>k. tx_event env k = NoTxError"
  shows "\<exists>r. ingest_loop env db s = Some r \<and>
           (\<forall>s'. r = Inr s' \<longrightarrow> s_unloaded s' = [] \<and> s_i s' \<le> s_i s + length (s_unloaded s))"
proof (induction "length (s_unloaded s)" arbitrary: s rule: less_induct)
  case less
  show ?case
  proof (cases "length (s_unloaded s) > 0")
    case False
    then show ?thesis by (simp add: ingest_loop.simps [of env db s])
  next
    case True
    show ?thesis
    proof (cases "ingest_pass env db s")
      case (Inl e)
      with True show ?thesis by (simp add: ingest_loop.simps [of env db s])
    next
      case (Inr s1)
      from assms have "tx_event env (s_i s) = NoTxError" by simp
      from ingest_pass_no_tx [OF this Inr]
      have len: "length (s_unloaded s1) = length (s_unloaded s) div 2" and i: "s_i s1 = s_i s + 1"
        by simp_all
      from len True have "length (s_unloaded s1) < length (s_unloaded s)" by simp
      from less.hyps [OF this] obtain r where r: "ingest_loop env db s1 = Some r"
        "\<forall>s'. r = Inr s' \<longrightarrow> s_unloaded s' = [] \<and> s_i s' \<le> s_i s1 + length (s_unloaded s1)"
        by blast
      have loop: "ingest_loop env db s = Some r"
        using True Inr r(1) by (simp add: ingest_loop.simps [of env db s])
      have "Suc (length (s_unloaded s) div 2) \<le> length (s_unloaded s)"
        using True by (cases "length (s_unloaded s)") simp_all
      then have le: "s_i s1 + length (s_unloaded s1) \<le> s_i s + length (s_unloaded s)"
        using len i by simp
      have "\<forall>s'. r = Inr s' \<longrightarrow> s_unloaded s' = [] \<and> s_i s' \<le> s_i s + length (s_unloaded s)"
      proof (intro allI impI)
        fix s' assume "r = Inr s'"
        with r(2) have "s_unloaded s' = []" "s_i s' \<le> s_i s1 + length (s_unloaded s1)" by simp_all
        with le show "s_unloaded s' = [] \<and> s_i s' \<le> s_i s + length (s_unloaded s)" by simp
      qed
      with loop show ?thesis by (intro exI [of _ r] conjI)
    qed
  qed
qed

text \<open>
  C5 (as amended).  When no pass is ended by \<open>TransactionManagementError\<close>, the first
  loop ends (with the batch empty, or with the exception of a file that cannot be
  opened): a pass leaves half of the units (rounded down) in the batch, so at least one
  unit is removed in every pass, and the counter grows by at most the number of units.
\<close>

theorem ingest_loop_terminates:
  assumes "\<forall>k. tx_event env k = NoTxError"
  shows "(\<exists>r. ingest_loop env db s = Some r \<and>
            (\<forall>s'. r = Inr s' \<longrightarrow> s_unloaded s' = [] \<and> s_i s' \<le> s_i s + length (s_unloaded s))) \<and>
         (\<forall>s'. ingest_pass env db s = Inr s' \<longrightarrow>
            length (s_unloaded s') = length (s_unloaded s) div 2 \<and> s_i s' = s_i s + 1)"
proof (intro conjI allI impI)
  show "\<exists>r. ingest_loop env db s = Some r \<and>
            (\<forall>s'. r = Inr s' \<longrightarrow> s_unloaded s' = [] \<and> s_i s' \<le> s_i s + length (s_unloaded s))"
    by (rule ingest_loop_no_tx [OF assms])
next
  fix s' assume pass: "ingest_pass env db s = Inr s'"
  from assms have "tx_event env (s_i s) = NoTxError" by simp
  from ingest_pass_no_tx [OF this pass]
  show "length (s_unloaded s') = length (s_unloaded s) div 2" "s_i s' = s_i s + 1" by simp_all
qed


theorem ingest_loop_terminates_witness:
  "ingest_loop ex_env 0 (initial_state (fixtures ex_env)) =
     Some (Inr \<lparr>s_unloaded = [], s_prev_processed = Some [],
                 s_processed = [''a.json'', ''c.json''], s_skiped = [''b.json''],
                 s_really_skiped = [], s_objects = [ex_record ''1'', ex_author_record],
                 s_missing_fks = Some [], s_i = 2\<rparr>) \<and>
   length (s_unloaded (initial_state (fixtures ex_env))) = 3"
proof -
  have tx: "\<forall>k. tx_event ex_env k = NoTxError" by (simp add: ex_env_def)
  have ev: "ingest_loop ex_env 0 (initial_state (fixtures ex_env)) =
     Some (Inr \<lparr>s_unloaded = [], s_prev_processed = Some [],
                 s_processed = [''a.json'', ''c.json''], s_skiped = [''b.json''],
                 s_really_skiped = [], s_objects = [ex_record ''1'', ex_author_record],
                 s_missing_fks = Some [], s_i = 2\<rparr>)"
    by code_simp
  have len: "length (s_unloaded (initial_state (fixtures ex_env))) = 3"
    by (simp add: initial_state_def ex_env_def)
  show ?thesis
    using ingest_loop_terminates [OF tx, of 0 "initial_state (fixtures ex_env)"]
    by (intro conjI ev len)
qed

lemma stuck_pass:
  assumes "s_unloaded s = [''a.json'']"
  shows "\<exists>s'. ingest_pass stuck_env db s = Inr s' \<and> s_unloaded s' = [''a.json'']"
  using assms
  by (simp add: ingest_pass_def stuck_env_def loaddata_def loaddata_loop.simps [of _ _ "[''a.json'']"]
      loaddata_loop.simps [of _ _ "[]"])

lemma stuck_loop_aux:
  assumes "ingest_loop env db s = Some y"
  shows "\<not> (env = stuck_env \<and> s_unloaded s = [''a.json''])"
proof (rule ingest_loop.raw_induct
    [where P = "\<lambda>env db s y. \<not> (env = stuck_env \<and> s_unloaded s = [''a.json''])", OF _ assms])
  fix loop :: "nat restore_env \<Rightarrow> nat \<Rightarrow> ingest_state \<Rightarrow> (error + ingest_state) option"
  fix env db s y
  assume IH: "\<And>env db s y. loop env db s = Some y \<Longrightarrow> \<not> (env = stuck_env \<and> s_unloaded s = [''a.json''])"
    and eq: "(if 0 < length (s_unloaded s)
      then case ingest_pass env db s of Inl e \<Rightarrow> Some (Inl e) | Inr s' \<Rightarrow> loop env db s'
      else Some (Inr s)) = Some y"
  show "\<not> (env = stuck_env \<and> s_unloaded s = [''a.json''])"
  proof
    assume a: "env = stuck_env \<and> s_unloaded s = [''a.json'']"
    then obtain s' where s': "ingest_pass stuck_env db s = Inr s'" "s_unloaded s' = [''a.json'']"
      using stuck_pass by blast
    with a eq have "loop stuck_env db s' = Some y" by simp
    from IH [OF this] s'(2) show False by simp
  qed
qed

text \<open>
  C5 as stated fails: the loop has no test for a pass without progress and no bound on
  its counter.  When every pass is ended by \<open>TransactionManagementError\<close> on leaving
  the block, the processed unit is queued again and the loop over a single unit does not
  end; when the first three passes are, each leaves the size of the batch unchanged, the
  loop goes on, and it ends with the counter at 4 for one unit.
\<close>

theorem ingest_loop_counterexample:
  "ingest_loop stuck_env 0 (initial_state (fixtures stuck_env)) = None \<and>
   length (fixtures slow_env) = 1 \<and>
   ingest_pass slow_env 0 (initial_state (fixtures slow_env)) =
     Inr ((initial_state [''a.json''])\<lparr>s_prev_processed := Some [''a.json''],
            s_processed := [''a.json''], s_missing_fks := Some [], s_i := 1\<rparr>) \<and>
   ingest_loop slow_env 0 (initial_state (fixtures slow_env)) =
     Some (Inr \<lparr>s_unloaded = [], s_prev_processed = Some [''a.json''],
                 s_processed = [''a.json'', ''a.json'', ''a.json'', ''a.json''], s_skiped = [],
                 s_really_skiped = [], s_objects = [], s_missing_fks = Some [], s_i = 4\<rparr>)"
proof (intro conjI)
  have "s_unloaded (initial_state (fixtures stuck_env)) = [''a.json'']"
    by (simp add: initial_state_def stuck_env_def)
  with stuck_loop_aux [of stuck_env 0 "initial_state (fixtures stuck_env)"]
  show "ingest_loop stuck_env 0 (initial_state (fixtures stuck_env)) = None"
    by (cases "ingest_loop stuck_env 0 (initial_state (fixtures stuck_env))") auto
  show "length (fixtures slow_env) = 1" by (simp add: slow_env_def)
  show "ingest_pass slow_env 0 (initial_state (fixtures slow_env)) =
     Inr ((initial_state [''a.json''])\<lparr>s_prev_processed := Some [''a.json''],
            s_processed := [''a.json''], s_missing_fks := Some [], s_i := 1\<rparr>)"
    by code_simp
  show "ingest_loop slow_env 0 (initial_state (fixtures slow_env)) =
     Some (Inr \<lparr>s_unloaded = [], s_prev_processed = Some [''a.json''],
                 s_processed = [''a.json'', ''a.json'', ''a.json'', ''a.json''], s_skiped = [],
                 s_really_skiped = [], s_objects = [], s_missing_fks = Some [], s_i = 4\<rparr>)"
    by code_simp
qed


subsection \<open>Claim C6: a restore without fixture files\<close>

lemma gitrestore_handle_no_fixtures:
  "gitrestore_handle (env\<lparr>fixtures := []\<rparr>) u w =
     Some (Inl (UnboundLocalError ''missing_fks''), w\<lparr>gitversion_connected := False\<rparr>)"
  by (simp add: gitrestore_handle_def Let_def initial_state_def ingest_loop.simps)

text \<open>
  C6.  With no fixture file the first loop does not run, \<open>missing_fks\<close> is never
  assigned, and \<open>save_all(missing_fks, ...)\<close> raises \<open>UnboundLocalError\<close>: the
  command does not return the report with zero iterations that the claim describes, and
  the receiver stays disconnected.
\<close>

theorem gitrestore_handle_empty_batch:
  "gitrestore_handle (env\<lparr>fixtures := []\<rparr>) u w =
     Some (Inl (UnboundLocalError ''missing_fks''), w\<lparr>gitversion_connected := False\<rparr>) \<and>
   gitrestore_handle (ex_env\<lparr>fixtures := []\<rparr>) ''default'' ex_world =
     Some (Inl (UnboundLocalError ''missing_fks''),
           \<lparr>database = 0, gitversion_connected = False, versioned = []\<rparr>)"
  using gitrestore_handle_no_fixtures [of env u w]
    gitrestore_handle_no_fixtures [of ex_env "''default''" ex_world]
  by (simp add: ex_world_def)


subsection \<open>Claim C7: the versioning receiver during a restore\<close>

lemma signalling_save_objects:
  "save_objects (signalling_store st) u objs sk errs w = (r, w') \<Longrightarrow> \<not> gitversion_connected w \<Longrightarrow>
   \<not> gitversion_connected w' \<and> versioned w' = versioned w"
proof (induction objs arbitrary: sk errs w)
  case Nil
  then show ?case by simp
next
  case (Cons obj objs)
  show ?case
  proof (cases "allow_migrate_model st u (object_class obj)")
    case False
    with Cons.prems have "save_objects (signalling_store st) u objs sk errs w = (r, w')"
      by (simp add: signalling_store_def)
    from Cons.IH [OF this Cons.prems(2)] show ?thesis .
  next
    case True
    show ?thesis
    proof (cases "obj_save st obj u (database w)")
      case (Saved db')
      let ?w1 = "post_save_send obj (w\<lparr>database := db'\<rparr>)"
      have w1: "\<not> gitversion_connected ?w1" "versioned ?w1 = versioned w"
        using Cons.prems(2) by (simp_all add: post_save_send_def)
      from True Saved Cons.prems(1)
      have "save_objects (signalling_store st) u objs sk errs ?w1 = (r, w')"
        by (simp add: signalling_store_def)
      from Cons.IH [OF this w1(1)] w1(2) show ?thesis by simp
    next
      case (DatabaseError e db')
      let ?w1 = "w\<lparr>database := db'\<rparr>"
      from True DatabaseError Cons.prems(1)
      have "save_objects (signalling_store st) u objs (sk @ [obj]) (errs @ [could_not_load obj e]) ?w1 = (r, w')"
        by (simp add: signalling_store_def)
      from Cons.IH [OF this] Cons.prems(2) show ?thesis by simp
    next
      case (OtherException e db')
      with True Cons.prems show ?thesis
        by (auto simp: signalling_store_def)
    qed
  qed
qed

lemma signalling_save_all:
  "save_all (signalling_store st) objs u i w = (r, w') \<Longrightarrow> \<not> gitversion_connected w \<Longrightarrow>
   \<not> gitversion_connected w' \<and> versioned w' = versioned w"
proof (induction "signalling_store st" objs u i w rule: save_all.induct)
  case (1 objects u iterations w)
  let ?st = "signalling_store st"
  show ?case
  proof (cases "length objects = 0 \<or> iterations \<ge> 25")
    case True
    with "1.prems" show ?thesis by (auto simp: save_all.simps [of ?st objects])
  next
    case False
    obtain p w1 where pass: "save_objects ?st u objects [] [] w = (p, w1)"
      by (cases "save_objects ?st u objects [] [] w")
    from signalling_save_objects [OF pass "1.prems"(2)]
    have w1: "\<not> gitversion_connected w1" "versioned w1 = versioned w" by simp_all
    show ?thesis
    proof (cases p)
      case (Inl e)
      with "1.prems"(1) False pass w1 show ?thesis by (simp add: save_all.simps [of ?st objects])
    next
      case (Inr q)
      obtain skiped errs where q: "q = (skiped, errs)" by (cases q)
      show ?thesis
      proof (cases "length skiped > 0")
        case True
        with "1.prems"(1) False pass Inr q
        have "save_all ?st skiped u (iterations + 1) w1 = (r, w')"
          by (simp add: save_all.simps [of ?st objects])
        from "1.hyps" [OF False pass [symmetric] Inr q [symmetric] True this w1(1)] w1(2)
        show ?thesis by simp
      next
        case F: False
        with "1.prems"(1) False pass Inr q w1 show ?thesis
          by (simp add: save_all.simps [of ?st objects])
      qed
    qed
  qed
qed

text \<open>
  C7 (as amended).  The receiver is disconnected before the first pass, so no save of
  the restore runs it; it is connected again at the end of a restore that returns
  normally.  When an exception leaves the command, the receiver stays disconnected.
\<close>

theorem gitrestore_handle_hook:
  assumes "gitrestore_handle env u w = Some (r, w')"
  shows "versioned w' = versioned w \<and>
         (case r of Inl e \<Rightarrow> \<not> gitversion_connected w' | Inr rep \<Rightarrow> gitversion_connected w')"
proof -
  let ?w1 = "w\<lparr>gitversion_connected := False\<rparr>"
  let ?st = "signalling_store (db_store env)"
  have w1: "\<not> gitversion_connected ?w1" "versioned ?w1 = versioned w" by simp_all
  from assms obtain x where loop: "ingest_loop env (database ?w1) (initial_state (fixtures env)) = Some x"
    by (cases "ingest_loop env (database ?w1) (initial_state (fixtures env))")
       (auto simp: gitrestore_handle_def Let_def)
  show ?thesis
  proof (cases x)
    case (Inl e)
    with assms loop show ?thesis by (auto simp: gitrestore_handle_def Let_def)
  next
    case (Inr s1)
    show ?thesis
    proof (cases "s_missing_fks s1")
      case None
      with assms loop Inr show ?thesis by (auto simp: gitrestore_handle_def Let_def)
    next
      case (Some fks)
      obtain r2 w2 where a: "save_all ?st fks u 0 ?w1 = (r2, w2)" by (cases "save_all ?st fks u 0 ?w1")
      from signalling_save_all [OF a w1(1)] w1(2)
      have w2: "\<not> gitversion_connected w2" "versioned w2 = versioned w" by simp_all
      show ?thesis
      proof (cases r2)
        case (Inl e)
        with assms loop Inr Some a w2 show ?thesis by (auto simp: gitrestore_handle_def Let_def)
      next
        case r2: (Inr it0)
        obtain r3 w3 where b: "save_all ?st (s_objects s1) u 0 w2 = (r3, w3)"
          by (cases "save_all ?st (s_objects s1) u 0 w2")
        from signalling_save_all [OF b w2(1)] w2(2)
        have w3: "\<not> gitversion_connected w3" "versioned w3 = versioned w" by simp_all
        show ?thesis
        proof (cases r3)
          case (Inl e)
          with assms loop Inr Some a r2 b w3 show ?thesis by (auto simp: gitrestore_handle_def Let_def)
        next
          case r3: (Inr it)
          show ?thesis
          proof (cases "retry_loop env (database w3) s1")
            case (Inl e)
            with assms loop Inr Some a r2 b r3 w3 show ?thesis
              by (auto simp: gitrestore_handle_def Let_def)
          next
            case s2: (Inr s2)
            obtain r4 w4 where c: "save_all ?st (s_objects s2) u it w3 = (r4, w4)"
              by (cases "save_all ?st (s_objects s2) u it w3")
            from signalling_save_all [OF c w3(1)] w3(2)
            have w4: "\<not> gitversion_connected w4" "versioned w4 = versioned w" by simp_all
            from assms loop Inr Some a r2 b r3 s2 c w4 show ?thesis
              by (cases r4) (auto simp: gitrestore_handle_def Let_def)
          qed
        qed
      qed
    qed
  qed
qed


theorem gitrestore_handle_hook_witness:
  "gitrestore_handle ex_env ''default'' ex_world =
     Some (Inr \<lparr>rep_loaded = 2, rep_skipped = 1, rep_total = 3,
                 rep_loaddata_iterations = 3, rep_saving_iterations = 25\<rparr>,
           \<lparr>database = 1, gitversion_connected = True, versioned = []\<rparr>) \<and>
   versioned ex_world = []"
proof -
  have ev: "gitrestore_handle ex_env ''default'' ex_world =
     Some (Inr \<lparr>rep_loaded = 2, rep_skipped = 1, rep_total = 3,
                 rep_loaddata_iterations = 3, rep_saving_iterations = 25\<rparr>,
           \<lparr>database = 1, gitversion_connected = True, versioned = []\<rparr>)"
    by code_simp
  have v: "versioned ex_world = []" by (simp add: ex_world_def)
  show ?thesis
    using gitrestore_handle_hook [OF ev]
    by (intro conjI ev v)
qed

text \<open>
  C7 as stated fails: a fixture file that cannot be opened ends the command with the
  receiver, connected before, left disconnected.
\<close>

theorem gitrestore_handle_hook_counterexample:
  "gitversion_connected ex_world \<and>
   gitrestore_handle unreadable_env ''default'' ex_world =
     Some (Inl (IOError ''Permission denied''),
           \<lparr>database = 0, gitversion_connected = False, versioned = []\<rparr>)"
  by code_simp


section \<open>Properties of the dump command\<close>

subsection \<open>Claim C10: the dump command fails before it writes\<close>










end
